theory Spec2Isabelle
  imports Main "HOL-Library.Sublist" "HOL-Library.Monad_Syntax"
begin

section \<open>Characters and the string methods of Python used by the splitter\<close>

text \<open>
  A Python \<open>str\<close> is a sequence of code points. The embedding takes \<open>string\<close>, whose
  characters are the code points below 256; the character classes below are
  Python's own on that range.
\<close>

definition newline :: char where
  "newline = CHR 0x0A"

definition dquote :: char where
  "dquote = CHR 0x22"

definition isspace :: "char \<Rightarrow> bool" where
  \<comment> \<open>\<open>str.isspace\<close>, which is also the class \<open>\s\<close> of \<open>re\<close> on \<open>str\<close> patterns\<close>
  "isspace c = (of_char c \<in> {9, 10, 11, 12, 13, 28, 29, 30, 31, 32, 133, 160 :: nat})"

definition ascii_upper :: "char \<Rightarrow> bool" where
  \<comment> \<open>the class \<open>[A-Z]\<close>\<close>
  "ascii_upper c = (65 \<le> (of_char c :: nat) \<and> (of_char c :: nat) \<le> 90)"

definition ascii_lower :: "char \<Rightarrow> bool" where
  \<comment> \<open>the class \<open>[a-z]\<close>\<close>
  "ascii_lower c = (97 \<le> (of_char c :: nat) \<and> (of_char c :: nat) \<le> 122)"

definition ascii_letter :: "char \<Rightarrow> bool" where
  \<comment> \<open>the class \<open>[A-Za-z]\<close>\<close>
  "ascii_letter c = (ascii_upper c \<or> ascii_lower c)"

definition isalpha :: "char \<Rightarrow> bool" where
  \<comment> \<open>\<open>str.isalpha\<close> for one character: the letters of Latin-1\<close>
  "isalpha c = (let n = (of_char c :: nat) in
     ascii_letter c \<or> n = 170 \<or> n = 181 \<or> n = 186 \<or>
     (192 \<le> n \<and> n \<le> 214) \<or> (216 \<le> n \<and> n \<le> 246) \<or> 248 \<le> n)"

definition lstrip :: "string \<Rightarrow> string" where
  "lstrip s = dropWhile isspace s"

definition rstrip :: "string \<Rightarrow> string" where
  "rstrip s = rev (dropWhile isspace (rev s))"

definition strip :: "string \<Rightarrow> string" where
  "strip s = rstrip (lstrip s)"

definition rstrip_chars :: "string \<Rightarrow> string \<Rightarrow> string" where
  \<comment> \<open>\<open>s.rstrip(chars)\<close>\<close>
  "rstrip_chars s chars = rev (dropWhile (\<lambda>c. c \<in> set chars) (rev s))"

definition slice :: "'a list \<Rightarrow> nat \<Rightarrow> nat \<Rightarrow> 'a list" where
  \<comment> \<open>\<open>s[a:b]\<close> for non-negative \<open>a\<close> and \<open>b\<close>; a slice never raises\<close>
  "slice s a b = take (b - a) (drop a s)"

fun split_ws_from :: "string \<Rightarrow> string \<Rightarrow> string list" where
  "split_ws_from w [] = (if w = [] then [] else [w])"
| "split_ws_from w (c # cs) =
     (if isspace c then (if w = [] then [] else [w]) @ split_ws_from [] cs
      else split_ws_from (w @ [c]) cs)"

definition split_ws :: "string \<Rightarrow> string list" where
  \<comment> \<open>\<open>s.split()\<close>: the maximal runs of non-whitespace characters\<close>
  "split_ws s = split_ws_from [] s"

function split_from :: "'a list \<Rightarrow> 'a list \<Rightarrow> 'a list \<Rightarrow> 'a list list" where
  "split_from sep acc [] = [acc]"
| "split_from sep acc (c # cs) =
     (if sep \<noteq> [] \<and> prefix sep (c # cs)
      then acc # split_from sep [] (drop (length sep) (c # cs))
      else split_from sep (acc @ [c]) cs)"
  by pat_completeness auto
termination
  by (relation "measure (\<lambda>(sep, acc, s). length s)") auto

definition py_split :: "'a list \<Rightarrow> 'a list \<Rightarrow> 'a list list" where
  \<comment> \<open>\<open>s.split(sep)\<close> for a non-empty separator: cut at the occurrences of \<open>sep\<close>,
      found from the left and not overlapping\<close>
  "py_split s sep = split_from sep [] s"

definition py_index :: "'a list \<Rightarrow> nat \<Rightarrow> 'a option" where
  \<comment> \<open>\<open>xs[i]\<close>; \<open>None\<close> is the \<open>IndexError\<close> Python raises\<close>
  "py_index xs i = (if i < length xs then Some (xs ! i) else None)"

definition py_last :: "'a list \<Rightarrow> 'a option" where
  \<comment> \<open>\<open>xs[-1]\<close>\<close>
  "py_last xs = (if xs = [] then None else Some (last xs))"

definition py_and :: "bool option \<Rightarrow> bool option \<Rightarrow> bool option" where
  \<comment> \<open>\<open>a and b\<close>: the right operand is not evaluated, and cannot raise, when the
      left one is false\<close>
  "py_and a b = (case a of None \<Rightarrow> None | Some x \<Rightarrow> if x then b else Some False)"

section \<open>Regular expressions\<close>

text \<open>
  The patterns the splitter hands to \<open>re.match\<close> and \<open>re.search\<close> are written as
  regular expressions over character classes and decided with derivatives. Only
  whether a match exists is used by the source, which does not depend on the order
  in which a backtracking matcher tries the alternatives.
\<close>

datatype rexp =
    RNone
  | REps
  | RClass "char \<Rightarrow> bool"
  | RAlt rexp rexp
  | RSeq rexp rexp
  | RStar rexp

definition RPlus :: "rexp \<Rightarrow> rexp" where
  "RPlus r = RSeq r (RStar r)"

fun nullable :: "rexp \<Rightarrow> bool" where
  "nullable RNone = False"
| "nullable REps = True"
| "nullable (RClass P) = False"
| "nullable (RAlt r s) = (nullable r \<or> nullable s)"
| "nullable (RSeq r s) = (nullable r \<and> nullable s)"
| "nullable (RStar r) = True"

fun deriv :: "char \<Rightarrow> rexp \<Rightarrow> rexp" where
  "deriv c RNone = RNone"
| "deriv c REps = RNone"
| "deriv c (RClass P) = (if P c then REps else RNone)"
| "deriv c (RAlt r s) = RAlt (deriv c r) (deriv c s)"
| "deriv c (RSeq r s) =
     (if nullable r then RAlt (RSeq (deriv c r) s) (deriv c s) else RSeq (deriv c r) s)"
| "deriv c (RStar r) = RSeq (deriv c r) (RStar r)"

definition re_fullmatch :: "rexp \<Rightarrow> string \<Rightarrow> bool" where
  \<comment> \<open>the whole of \<open>s\<close> matches \<open>r\<close>\<close>
  "re_fullmatch r s = nullable (fold deriv s r)"

fun re_match :: "rexp \<Rightarrow> string \<Rightarrow> bool" where
  \<comment> \<open>\<open>re.match(r, s)\<close> is not \<open>None\<close>: some prefix of \<open>s\<close> matches \<open>r\<close>\<close>
  "re_match r [] = nullable r"
| "re_match r (c # cs) = (nullable r \<or> re_match (deriv c r) cs)"

definition re_match_dollar :: "rexp \<Rightarrow> string \<Rightarrow> bool" where
  \<comment> \<open>\<open>re.match\<close> of a pattern that ends in \<open>$\<close>: the match stops at the end of \<open>s\<close>
      or just before a newline that is the last character of \<open>s\<close>\<close>
  "re_match_dollar r s =
     (re_fullmatch r s \<or> (s \<noteq> [] \<and> last s = newline \<and> re_fullmatch r (butlast s)))"

text \<open>
  The matcher decides membership in the language of the expression: \<open>re_fullmatch\<close>
  for the whole string, \<open>re_match\<close> for some prefix of it.
\<close>

definition conc :: "string set \<Rightarrow> string set \<Rightarrow> string set" where
  "conc A B = {u @ v | u v. u \<in> A \<and> v \<in> B}"

inductive_set star :: "string set \<Rightarrow> string set" for A :: "string set" where
  star_empty: "[] \<in> star A"
| star_more: "u \<in> A \<Longrightarrow> v \<in> star A \<Longrightarrow> u @ v \<in> star A"

fun lang :: "rexp \<Rightarrow> string set" where
  "lang RNone = {}"
| "lang REps = {[]}"
| "lang (RClass P) = {[c] | c. P c}"
| "lang (RAlt r s) = lang r \<union> lang s"
| "lang (RSeq r s) = conc (lang r) (lang s)"
| "lang (RStar r) = star (lang r)"

lemma nullable_lang: "nullable r \<longleftrightarrow> [] \<in> lang r"
  by (induction r) (auto simp: conc_def intro: star_empty)

lemma conc_Cons:
  "c # w \<in> conc A B \<longleftrightarrow>
     (\<exists>u. c # u \<in> A \<and> (\<exists>v. w = u @ v \<and> v \<in> B)) \<or> ([] \<in> A \<and> c # w \<in> B)"
proof
  assume "c # w \<in> conc A B"
  then obtain u v where uv: "c # w = u @ v" "u \<in> A" "v \<in> B"
    by (auto simp: conc_def)
  show "(\<exists>u. c # u \<in> A \<and> (\<exists>v. w = u @ v \<and> v \<in> B)) \<or> ([] \<in> A \<and> c # w \<in> B)"
  proof (cases u)
    case Nil
    with uv show ?thesis by simp
  next
    case (Cons d u')
    with uv show ?thesis by auto
  qed
next
  assume "(\<exists>u. c # u \<in> A \<and> (\<exists>v. w = u @ v \<and> v \<in> B)) \<or> ([] \<in> A \<and> c # w \<in> B)"
  then show "c # w \<in> conc A B"
  proof
    assume "\<exists>u. c # u \<in> A \<and> (\<exists>v. w = u @ v \<and> v \<in> B)"
    then obtain u v where "c # u \<in> A" "w = u @ v" "v \<in> B" by blast
    then have "(c # u) @ v \<in> conc A B" unfolding conc_def by blast
    with \<open>w = u @ v\<close> show ?thesis by simp
  next
    assume "[] \<in> A \<and> c # w \<in> B"
    then have "[] @ (c # w) \<in> conc A B" unfolding conc_def by blast
    then show ?thesis by simp
  qed
qed

lemma star_Cons:
  "c # w \<in> star A \<longleftrightarrow> (\<exists>u v. w = u @ v \<and> c # u \<in> A \<and> v \<in> star A)"
proof
  assume "c # w \<in> star A"
  then show "\<exists>u v. w = u @ v \<and> c # u \<in> A \<and> v \<in> star A"
  proof (induction "c # w" arbitrary: w rule: star.induct)
    case (star_more u v)
    show ?case
    proof (cases u)
      case Nil
      with star_more show ?thesis by simp
    next
      case (Cons d u')
      with star_more show ?thesis by auto
    qed
  qed
next
  assume "\<exists>u v. w = u @ v \<and> c # u \<in> A \<and> v \<in> star A"
  then obtain u v where "w = u @ v" "c # u \<in> A" "v \<in> star A" by blast
  then have "(c # u) @ v \<in> star A" by (intro star_more)
  with \<open>w = u @ v\<close> show "c # w \<in> star A" by simp
qed

lemma deriv_lang: "w \<in> lang (deriv c r) \<longleftrightarrow> c # w \<in> lang r"
proof (induction r arbitrary: w)
  case (RSeq r s)
  then show ?case
    by (auto simp: conc_Cons nullable_lang) (auto simp: conc_def)
next
  case (RStar r)
  then show ?case
    by (auto simp: star_Cons conc_def)
qed auto

lemma re_fullmatch_lang: "re_fullmatch r s \<longleftrightarrow> s \<in> lang r"
  unfolding re_fullmatch_def
  by (induction s arbitrary: r) (simp_all add: nullable_lang deriv_lang)

lemma re_match_lang: "re_match r s \<longleftrightarrow> (\<exists>u v. s = u @ v \<and> u \<in> lang r)"
proof (induction s arbitrary: r)
  case Nil
  show ?case by (simp add: nullable_lang)
next
  case (Cons c s)
  note IH = Cons.IH
  show ?case
  proof
    assume "re_match r (c # s)"
    then consider "nullable r" | "re_match (deriv c r) s" by auto
    then show "\<exists>u v. c # s = u @ v \<and> u \<in> lang r"
    proof cases
      case 1
      then have "c # s = [] @ (c # s) \<and> [] \<in> lang r" by (simp add: nullable_lang)
      then show ?thesis by blast
    next
      case 2
      with IH obtain u v where "s = u @ v" "u \<in> lang (deriv c r)" by blast
      then have "c # s = (c # u) @ v \<and> c # u \<in> lang r" by (simp add: deriv_lang)
      then show ?thesis by blast
    qed
  next
    assume "\<exists>u v. c # s = u @ v \<and> u \<in> lang r"
    then obtain u v where uv: "c # s = u @ v" "u \<in> lang r" by blast
    show "re_match r (c # s)"
    proof (cases u)
      case Nil
      with uv have "nullable r" by (simp add: nullable_lang)
      then show ?thesis by simp
    next
      case (Cons d u')
      with uv have "s = u' @ v" "u' \<in> lang (deriv c r)" by (auto simp: deriv_lang)
      with IH have "re_match (deriv c r) s" by blast
      then show ?thesis by simp
    qed
  qed
qed

definition any_char :: "char \<Rightarrow> bool" where
  \<comment> \<open>an unescaped \<open>.\<close> of a pattern: any character but a newline\<close>
  "any_char c = (c \<noteq> newline)"

definition multi_part_pattern :: rexp where
  \<comment> \<open>\<open>([A-Za-z]+.)([A-Za-z]+.)+\<close>\<close>
  "multi_part_pattern =
     RSeq (RSeq (RPlus (RClass ascii_letter)) (RClass any_char))
          (RPlus (RSeq (RPlus (RClass ascii_letter)) (RClass any_char)))"

definition single_letters_pattern :: rexp where
  \<comment> \<open>\<open>([A-Za-z].)([A-Za-z].)+\<close>\<close>
  "single_letters_pattern =
     RSeq (RSeq (RClass ascii_letter) (RClass any_char))
          (RPlus (RSeq (RClass ascii_letter) (RClass any_char)))"

definition capital_pattern :: rexp where
  \<comment> \<open>\<open>\s*[A-Z]\<close>\<close>
  "capital_pattern = RSeq (RStar (RClass isspace)) (RClass ascii_upper)"

definition dialogue_pattern :: rexp where
  \<comment> \<open>\<open>\s*"[^"]+[.!?]"\s*[a-z]\<close>\<close>
  "dialogue_pattern =
     RSeq (RStar (RClass isspace))
    (RSeq (RClass (\<lambda>c. c = dquote))
    (RSeq (RPlus (RClass (\<lambda>c. c \<noteq> dquote)))
    (RSeq (RClass (\<lambda>c. c \<in> set ''.!?''))
    (RSeq (RClass (\<lambda>c. c = dquote))
    (RSeq (RStar (RClass isspace)) (RClass ascii_lower))))))"

section \<open>\<open>preprocess_text\<close>\<close>

definition marker :: string where
  "marker = ''[PARAGRAPH BREAK]''"

definition blank_line_rest :: "string \<Rightarrow> string option" where
  \<comment> \<open>A match of \<open>\n\s*\n\<close> at the start of \<open>s\<close>, if there is one: the text after it.
      \<open>\s*\<close> takes the whole run of whitespace after the first newline and gives
      characters back until a newline follows, so the match ends with the last newline
      of that run.\<close>
  "blank_line_rest s =
     (case s of
        [] \<Rightarrow> None
      | c # cs \<Rightarrow>
          if c \<noteq> newline then None
          else (let run = takeWhile isspace cs;
                    after_last_newline = rev (takeWhile (\<lambda>d. d \<noteq> newline) (rev run))
                in if newline \<in> set run
                   then Some (after_last_newline @ dropWhile isspace cs)
                   else None))"

lemma blank_line_rest_shorter:
  "blank_line_rest s = Some rest \<Longrightarrow> length rest < length s"
proof -
  assume a: "blank_line_rest s = Some rest"
  then obtain c cs where s: "s = c # cs"
    by (cases s) (auto simp: blank_line_rest_def)
  let ?run = "takeWhile isspace cs"
  from a s have rest: "rest = rev (takeWhile (\<lambda>d. d \<noteq> newline) (rev ?run)) @ dropWhile isspace cs"
    by (auto simp: blank_line_rest_def Let_def split: if_splits)
  have "length (takeWhile (\<lambda>d. d \<noteq> newline) (rev ?run)) \<le> length ?run"
    using length_takeWhile_le [of "\<lambda>d. d \<noteq> newline" "rev ?run"] by simp
  moreover have "length ?run + length (dropWhile isspace cs) = length cs"
    using takeWhile_dropWhile_id [of isspace cs] length_append [of ?run "dropWhile isspace cs"]
    by simp
  ultimately show ?thesis using rest s by simp
qed

function sub_blank_lines :: "string \<Rightarrow> string" where
  \<comment> \<open>\<open>re.sub(r'\n\s*\n', '\n[PARAGRAPH BREAK]\n', text)\<close>\<close>
  "sub_blank_lines [] = []"
| "sub_blank_lines (c # cs) =
     (case blank_line_rest (c # cs) of
        Some rest \<Rightarrow> (newline # marker @ [newline]) @ sub_blank_lines rest
      | None \<Rightarrow> c # sub_blank_lines cs)"
  by pat_completeness auto
termination
  by (relation "measure length") (auto dest: blank_line_rest_shorter)

fun sub_newlines :: "string \<Rightarrow> string" where
  \<comment> \<open>\<open>re.sub(r'\n(?![PARAGRAPH BREAK])', ' ', text)\<close>: the lookahead is a character
      class, the set of the characters between the brackets\<close>
  "sub_newlines [] = []"
| "sub_newlines (c # cs) =
     (if c = newline \<and> \<not> (cs \<noteq> [] \<and> hd cs \<in> set ''PARAGRAPH BREAK'')
      then CHR '' '' # sub_newlines cs
      else c # sub_newlines cs)"

function sub_spaces :: "string \<Rightarrow> string" where
  \<comment> \<open>\<open>re.sub(r'\s+', ' ', text)\<close>\<close>
  "sub_spaces [] = []"
| "sub_spaces (c # cs) =
     (if isspace c then CHR '' '' # sub_spaces (dropWhile isspace cs)
      else c # sub_spaces cs)"
  by pat_completeness auto
termination
  by (relation "measure length") (auto simp: length_dropWhile_le less_Suc_eq_le)

definition preprocess_text :: "string \<Rightarrow> string" where
  "preprocess_text text = strip (sub_spaces (sub_newlines (sub_blank_lines text)))"

section \<open>\<open>split_into_sentences\<close>\<close>

definition default_abbreviations :: "string set" where
  \<comment> \<open>the set \<open>load_abbreviations\<close> returns when the file is missing\<close>
  "default_abbreviations =
     {''Mr'', ''Mrs'', ''Ms'', ''Dr'', ''Prof'', ''Rev'', ''Hon'', ''St'', ''Sr'', ''Jr'',
      ''e.g'', ''i.e'', ''etc'', ''vs'', ''a.m'', ''p.m'', ''U.S'', ''U.K'', ''U.N'',
      ''Ph.D'', ''M.D'', ''B.A'', ''M.A'', ''B.Sc'', ''M.Sc'', ''Inc'', ''Ltd'', ''Co'',
      ''Jan'', ''Feb'', ''Mar'', ''Apr'', ''Jun'', ''Jul'', ''Aug'', ''Sep'', ''Sept'',
      ''Oct'', ''Nov'', ''Dec''}"

definition is_abbreviation ::
  "string \<Rightarrow> nat \<Rightarrow> string \<Rightarrow> string set \<Rightarrow> bool option" where
  \<comment> \<open>the value of \<open>is_abbr\<close> after the block under \<open>if char == '.'\<close>; \<open>i\<close> and
      \<open>current_sentence\<close> are the values after the ellipsis block\<close>
  "is_abbreviation paragraph i current_sentence abbreviations =
     (let words = split_ws (strip current_sentence) in
      if words = [] then Some False
      else do {
        last_word \<leftarrow> py_last words;
        if re_match_dollar multi_part_pattern last_word
           \<or> re_match_dollar single_letters_pattern last_word
        then Some True
        else do {
          single \<leftarrow> py_and (Some (length last_word = 2))
                     (py_and (map_option isalpha (py_index last_word 0))
                             (map_option (\<lambda>c. c = CHR ''.'') (py_index last_word 1)));
          if single then Some True
          else do {
            middle \<leftarrow> py_and (Some (i + 2 < length paragraph))
                       (py_and (map_option isalpha (py_index paragraph (i + 1)))
                               (map_option (\<lambda>c. c = CHR ''.'') (py_index paragraph (i + 2))));
            if middle then Some True
            else (let word_without_period = rstrip_chars last_word ''.'' in
                  if word_without_period \<in> abbreviations then Some True
                  else if last_word \<in> abbreviations then Some True
                  else Some False)
          }
        }
      })"

definition is_ellipsis_at :: "string \<Rightarrow> nat \<Rightarrow> char \<Rightarrow> bool" where
  \<comment> \<open>\<open>char == '.' and i+2 < len(paragraph) and paragraph[i+1:i+3] == '..'\<close>\<close>
  "is_ellipsis_at paragraph i char =
     (char = CHR ''.'' \<and> i + 2 < length paragraph \<and> slice paragraph (i + 1) (i + 3) = ''..'')"

definition is_sentence_end :: "bool \<Rightarrow> bool \<Rightarrow> bool \<Rightarrow> bool \<Rightarrow> string \<Rightarrow> bool" where
  \<comment> \<open>the condition under \<open># Determine if this is a sentence end\<close>\<close>
  "is_sentence_end open_quotes open_parens is_abbr is_ellipsis next_chars =
     (\<not> open_quotes \<and> \<not> open_parens \<and> \<not> is_abbr
      \<and> (\<not> is_ellipsis \<or> (is_ellipsis \<and> re_match capital_pattern (lstrip next_chars))))"

type_synonym scan_state = "nat \<times> string \<times> string list"

definition scan_step :: "string \<Rightarrow> string set \<Rightarrow> scan_state \<Rightarrow> scan_state option" where
  \<comment> \<open>one pass through the body of the \<open>while\<close> loop; the state is
      \<open>(i, current_sentence, sentences)\<close>\<close>
  "scan_step paragraph abbreviations st =
     (case st of (i, current_sentence, sentences) \<Rightarrow> do {
        char \<leftarrow> py_index paragraph i;
        let cur1 = current_sentence @ [char];
        if char \<in> set ''.!?'' then do {
          let next_chars = (if i + 1 < length paragraph
                            then slice paragraph (i + 1) (i + 20) else []);
          let open_quotes = (count_list cur1 dquote mod 2 \<noteq> 0);
          let open_parens = (count_list cur1 CHR ''('' > count_list cur1 CHR '')'');
          let is_ellipsis = is_ellipsis_at paragraph i char;
          let cur2 = (if is_ellipsis then cur1 @ slice paragraph (i + 1) (i + 3) else cur1);
          let i2 = (if is_ellipsis then i + 2 else i);
          is_abbr \<leftarrow> (if char = CHR ''.''
                      then is_abbreviation paragraph i2 cur2 abbreviations
                      else Some False);
          if is_sentence_end open_quotes open_parens is_abbr is_ellipsis next_chars
          then (if re_match dialogue_pattern cur2
                then Some (i2 + 1, cur2, sentences)
                else Some (i2 + 1, [], sentences @ [strip cur2]))
          else Some (i2 + 1, cur2, sentences)
        }
        else Some (i + 1, cur1, sentences)
      })"

lemma scan_step_advances:
  "scan_step paragraph abbreviations (i, cur, out) = Some (i', cur', out') \<Longrightarrow> i < i'"
  by (auto simp: scan_step_def Let_def split: if_splits Option.bind_splits)

function scan_loop ::
  "string \<Rightarrow> string set \<Rightarrow> scan_state \<Rightarrow> (string \<times> string list) option" where
  \<comment> \<open>\<open>while i < len(paragraph)\<close>; returns \<open>current_sentence\<close> and \<open>sentences\<close>\<close>
  "scan_loop paragraph abbreviations (i, current_sentence, sentences) =
     (if i < length paragraph
      then (case scan_step paragraph abbreviations (i, current_sentence, sentences) of
              None \<Rightarrow> None
            | Some st \<Rightarrow> scan_loop paragraph abbreviations st)
      else Some (current_sentence, sentences))"
  by pat_completeness auto
termination
proof (relation "measure (\<lambda>(paragraph, abbreviations, i, cur, out). length paragraph - i)")
  show "wf (measure (\<lambda>(paragraph, abbreviations, i, cur, out). length paragraph - i))"
    by simp
next
  fix p :: string and abbrs :: "string set" and i :: nat
    and cur :: string and out :: "string list" and st :: scan_state
  assume lt: "i < length p"
    and step: "scan_step p abbrs (i, cur, out) = Some st"
  obtain i' cur' out' where st: "st = (i', cur', out')"
    by (cases st) auto
  from step st have "i < i'"
    using scan_step_advances by blast
  with lt st
  show "((p, abbrs, st), (p, abbrs, i, cur, out))
        \<in> measure (\<lambda>(paragraph, abbreviations, i, cur, out). length paragraph - i)"
    by simp
qed

definition process_paragraph ::
  "string set \<Rightarrow> string list \<Rightarrow> string \<Rightarrow> string \<times> string list
   \<Rightarrow> (string \<times> string list) option" where
  \<comment> \<open>the body of \<open>for paragraph in paragraphs\<close>: from \<open>current_sentence\<close> and
      \<open>sentences\<close> before the paragraph to their values after it\<close>
  "process_paragraph abbreviations paragraphs paragraph st =
     (case st of (current_sentence, sentences) \<Rightarrow>
        if strip paragraph = [] then Some (current_sentence, sentences)
        else do {
          (cur1, out1) \<leftarrow> scan_loop paragraph abbreviations (0, current_sentence, sentences);
          let (cur2, out2) = (if strip cur1 \<noteq> [] then ([], out1 @ [strip cur1])
                              else (cur1, out1));
          last_paragraph \<leftarrow> py_last paragraphs;
          Some (cur2, if paragraph \<noteq> last_paragraph then out2 @ [marker] else out2)
        })"

fun paragraphs_loop ::
  "string set \<Rightarrow> string list \<Rightarrow> string list \<Rightarrow> string \<times> string list
   \<Rightarrow> (string \<times> string list) option" where
  "paragraphs_loop abbreviations paragraphs [] st = Some st"
| "paragraphs_loop abbreviations paragraphs (p # ps) st =
     (case process_paragraph abbreviations paragraphs p st of
        None \<Rightarrow> None
      | Some st' \<Rightarrow> paragraphs_loop abbreviations paragraphs ps st')"

definition split_into_sentences :: "string \<Rightarrow> string set \<Rightarrow> string list option" where
  \<comment> \<open>\<open>None\<close> stands for an exception raised on the way\<close>
  "split_into_sentences text abbreviations =
     (let paragraphs = py_split text marker in
      map_option snd (paragraphs_loop abbreviations paragraphs paragraphs ([], [])))"

declare scan_loop.simps [simp del]

section \<open>Evaluation\<close>

text \<open>
  Closed instances are evaluated by rewriting with the definitions. The congruence
  rules make the simplifier evaluate the argument of a binding before its body.
\<close>

lemmas char_defs = isspace_def ascii_letter_def ascii_lower_def ascii_upper_def isalpha_def
  any_char_def newline_def dquote_def

lemmas re_defs = re_match_dollar_def re_fullmatch_def multi_part_pattern_def
  single_letters_pattern_def capital_pattern_def dialogue_pattern_def RPlus_def

lemmas str_defs = strip_def lstrip_def rstrip_def rstrip_chars_def slice_def split_ws_def
  py_split_def py_index_def py_last_def py_and_def marker_def

lemmas scan_defs = split_into_sentences_def process_paragraph_def scan_loop.simps scan_step_def
  is_abbreviation_def is_ellipsis_at_def is_sentence_end_def

lemmas pre_defs = preprocess_text_def blank_line_rest_def

lemma bind_arg_cong: "a = b \<Longrightarrow> Option.bind a f = Option.bind b f"
  by simp

lemma let_arg_cong: "a = b \<Longrightarrow> Let a f = Let b f"
  by simp

section \<open>The shape of one scanning step\<close>

lemma py_and_guarded:
  "(g \<Longrightarrow> \<exists>x. a = Some x) \<Longrightarrow> (g \<Longrightarrow> \<exists>y. b = Some y) \<Longrightarrow> \<exists>z. py_and (Some g) (py_and a b) = Some z"
  by (cases g) (auto simp: py_and_def)

lemma is_abbreviation_total: "\<exists>b. is_abbreviation p i cur abbrs = Some b"
proof -
  let ?words = "split_ws (strip cur)"
  show ?thesis
  proof (cases "?words = []")
    case True
    then show ?thesis by (auto simp: is_abbreviation_def)
  next
    case False
    define w where "w = last ?words"
    have lw: "py_last ?words = Some w"
      using False by (simp add: py_last_def w_def)
    obtain s where s: "py_and (Some (length w = 2))
                     (py_and (map_option isalpha (py_index w 0))
                             (map_option (\<lambda>c. c = CHR ''.'') (py_index w 1))) = Some s"
      using py_and_guarded [of "length w = 2" "map_option isalpha (py_index w 0)"
          "map_option (\<lambda>c. c = CHR ''.'') (py_index w 1)"]
      by (auto simp: py_index_def)
    obtain m where m: "py_and (Some (i + 2 < length p))
                       (py_and (map_option isalpha (py_index p (i + 1)))
                               (map_option (\<lambda>c. c = CHR ''.'') (py_index p (i + 2)))) = Some m"
      using py_and_guarded [of "i + 2 < length p" "map_option isalpha (py_index p (i + 1))"
          "map_option (\<lambda>c. c = CHR ''.'') (py_index p (i + 2))"]
      by (auto simp: py_index_def)
    show ?thesis
      using False lw s m by (auto simp: is_abbreviation_def Let_def)
  qed
qed

lemma take3_drop:
  "i + 2 < length p \<Longrightarrow> take 3 (drop i p) = p ! i # slice p (i + 1) (i + 3)"
  by (simp add: slice_def numeral_3_eq_3 take_Suc_conv_app_nth Cons_nth_drop_Suc [symmetric])

lemma take1_drop: "i < length p \<Longrightarrow> take (Suc 0) (drop i p) = [p ! i]"
  by (simp add: take_Suc_conv_app_nth)

lemma scan_step_plain:
  assumes "i < length p" and "p ! i \<notin> set ''.!?''"
  shows "scan_step p abbrs (i, cur, out) = Some (i + 1, cur @ [p ! i], out)"
  using assms by (simp add: scan_step_def py_index_def)

lemma scan_step_terminator:
  assumes "i < length p" and trm: "p ! i \<in> set ''.!?''"
  shows "\<exists>b. (if p ! i = CHR ''.''
              then is_abbreviation p (if is_ellipsis_at p i (p ! i) then i + 2 else i)
                     (cur @ take (if is_ellipsis_at p i (p ! i) then 3 else 1) (drop i p)) abbrs
              else Some False) = Some b
          \<and> scan_step p abbrs (i, cur, out) =
             (if is_sentence_end (count_list (cur @ [p ! i]) dquote mod 2 \<noteq> 0)
                   (count_list (cur @ [p ! i]) CHR ''('' > count_list (cur @ [p ! i]) CHR '')'')
                   b (is_ellipsis_at p i (p ! i))
                   (if i + 1 < length p then slice p (i + 1) (i + 20) else [])
              then (if re_match dialogue_pattern
                         (cur @ take (if is_ellipsis_at p i (p ! i) then 3 else 1) (drop i p))
                    then Some (i + (if is_ellipsis_at p i (p ! i) then 3 else 1),
                         cur @ take (if is_ellipsis_at p i (p ! i) then 3 else 1) (drop i p), out)
                    else Some (i + (if is_ellipsis_at p i (p ! i) then 3 else 1), [],
                         out @ [strip (cur @ take (if is_ellipsis_at p i (p ! i) then 3 else 1)
                                               (drop i p))]))
              else Some (i + (if is_ellipsis_at p i (p ! i) then 3 else 1),
                         cur @ take (if is_ellipsis_at p i (p ! i) then 3 else 1) (drop i p), out))"
proof -
  have idx: "py_index p i = Some (p ! i)"
    using assms by (simp add: py_index_def)
  show ?thesis
  proof (cases "is_ellipsis_at p i (p ! i)")
    case True
    then have len: "i + 2 < length p" by (simp add: is_ellipsis_at_def)
    have "\<exists>b. (if p ! i = CHR ''.''
        then is_abbreviation p (i + 2) ((cur @ [p ! i]) @ slice p (i + 1) (i + 3)) abbrs
        else Some False) = Some b"
      by (auto simp: is_abbreviation_total)
    then obtain b where b: "(if p ! i = CHR ''.''
        then is_abbreviation p (i + 2) ((cur @ [p ! i]) @ slice p (i + 1) (i + 3)) abbrs
        else Some False) = Some b"
      by blast
    have buf: "cur @ take 3 (drop i p) = (cur @ [p ! i]) @ slice p (i + 1) (i + 3)"
      using len by (simp add: take3_drop)
    show ?thesis
      unfolding scan_step_def Let_def
      by (rule exI [of _ b])
         (simp only: prod.case idx Option.bind.simps trm True if_True b buf simp_thms, simp)
  next
    case False
    have "\<exists>b. (if p ! i = CHR ''.''
        then is_abbreviation p i (cur @ [p ! i]) abbrs
        else Some False) = Some b"
      by (auto simp: is_abbreviation_total)
    then obtain b where b: "(if p ! i = CHR ''.''
        then is_abbreviation p i (cur @ [p ! i]) abbrs
        else Some False) = Some b"
      by blast
    have buf: "cur @ take 1 (drop i p) = cur @ [p ! i]"
      using assms by (simp add: take1_drop)
    show ?thesis
      unfolding scan_step_def Let_def
      by (rule exI [of _ b])
         (simp only: prod.case idx Option.bind.simps trm False if_True if_False b buf simp_thms)
  qed
qed

lemma scan_step_shape:
  assumes "i < length p"
  shows "\<exists>n. (n = 1 \<or> n = 3) \<and> i + n \<le> length p \<and>
           (scan_step p abbrs (i, cur, out) = Some (i + n, cur @ take n (drop i p), out)
            \<or> (scan_step p abbrs (i, cur, out)
                  = Some (i + n, [], out @ [strip (cur @ take n (drop i p))])
                \<and> p ! i \<in> set ''.!?''))"
proof (cases "p ! i \<in> set ''.!?''")
  case False
  with assms have "scan_step p abbrs (i, cur, out) = Some (i + 1, cur @ take 1 (drop i p), out)"
    by (simp add: scan_step_plain take1_drop)
  moreover have "i + 1 \<le> length p" using assms by simp
  ultimately show ?thesis by blast
next
  case trm: True
  define n :: nat where "n = (if is_ellipsis_at p i (p ! i) then 3 else 1)"
  have n: "(n = 1 \<or> n = 3) \<and> i + n \<le> length p"
    using assms by (auto simp: n_def is_ellipsis_at_def)
  from scan_step_terminator [OF assms trm, of cur abbrs out]
  have "scan_step p abbrs (i, cur, out) = Some (i + n, cur @ take n (drop i p), out)
        \<or> scan_step p abbrs (i, cur, out) = Some (i + n, [], out @ [strip (cur @ take n (drop i p))])"
    unfolding n_def [symmetric] by (auto split: if_splits)
  with n trm show ?thesis by blast
qed


section \<open>What one run of the splitter emits\<close>

text \<open>
  The lemmas of this section describe the result of the scan of a paragraph, of the
  body of the loop over the paragraphs and of the whole function: the buffers that
  are emitted cut the text of the paragraph into consecutive pieces, each emitted
  trimmed and none blank.
\<close>

definition delete_whitespace :: "string \<Rightarrow> string" where
  "delete_whitespace s = filter (\<lambda>c. \<not> isspace c) s"

lemma delete_whitespace_dropWhile:
  "delete_whitespace (dropWhile isspace s) = delete_whitespace s"
  by (induction s) (auto simp: delete_whitespace_def)

lemma delete_whitespace_rev: "delete_whitespace (rev s) = rev (delete_whitespace s)"
  by (simp add: delete_whitespace_def rev_filter)

lemma delete_whitespace_strip: "delete_whitespace (strip s) = delete_whitespace s"
  by (simp add: strip_def lstrip_def rstrip_def delete_whitespace_rev delete_whitespace_dropWhile)

lemma delete_whitespace_append:
  "delete_whitespace (xs @ ys) = delete_whitespace xs @ delete_whitespace ys"
  by (simp add: delete_whitespace_def)

lemma delete_whitespace_Nil_iff: "delete_whitespace s = [] \<longleftrightarrow> (\<forall>c\<in>set s. isspace c)"
  by (auto simp: delete_whitespace_def filter_empty_conv)

lemma strip_Nil_iff: "strip s = [] \<longleftrightarrow> (\<forall>c\<in>set s. isspace c)"
proof
  assume "strip s = []"
  then have "delete_whitespace (strip s) = []" by (simp add: delete_whitespace_def)
  then show "\<forall>c\<in>set s. isspace c"
    by (simp add: delete_whitespace_strip delete_whitespace_Nil_iff)
next
  assume "\<forall>c\<in>set s. isspace c"
  then show "strip s = []"
    by (auto simp: strip_def lstrip_def rstrip_def dest: set_dropWhileD)
qed

lemma terminator_not_space: "c \<in> set ''.!?'' \<Longrightarrow> \<not> isspace c"
  by (auto simp: isspace_def)

lemma scan_loop_shape:
  "\<exists>bufs cur'. scan_loop p abbrs (i, cur, out) = Some (cur', out @ map strip bufs)
      \<and> (\<forall>b\<in>set bufs. strip b \<noteq> []) \<and> concat bufs @ cur' = cur @ drop i p"
proof (induction "length p - i" arbitrary: i cur out rule: less_induct)
  case less
  show ?case
  proof (cases "i < length p")
    case False
    then have "scan_loop p abbrs (i, cur, out) = Some (cur, out @ map strip [])"
      by (simp add: scan_loop.simps)
    moreover have "concat [] @ cur = cur @ drop i p" using False by simp
    ultimately show ?thesis by (metis empty_iff list.set(1))
  next
    case True
    from scan_step_shape [OF True, of abbrs cur out]
    obtain n where n: "n = 1 \<or> n = 3" "i + n \<le> length p"
      and step: "scan_step p abbrs (i, cur, out) = Some (i + n, cur @ take n (drop i p), out)
            \<or> (scan_step p abbrs (i, cur, out)
                  = Some (i + n, [], out @ [strip (cur @ take n (drop i p))])
                \<and> p ! i \<in> set ''.!?'')"
      by blast
    have smaller: "length p - (i + n) < length p - i"
      using True n by auto
    have split: "take n (drop i p) @ drop (i + n) p = drop i p"
      by (metis add.commute append_take_drop_id drop_drop)
    from step show ?thesis
    proof
      assume keep: "scan_step p abbrs (i, cur, out) = Some (i + n, cur @ take n (drop i p), out)"
      from less [OF smaller, of "cur @ take n (drop i p)" out]
      obtain bufs cur' where
        r: "scan_loop p abbrs (i + n, cur @ take n (drop i p), out) = Some (cur', out @ map strip bufs)"
        and ne: "\<forall>b\<in>set bufs. strip b \<noteq> []"
        and cat: "concat bufs @ cur' = (cur @ take n (drop i p)) @ drop (i + n) p"
        by blast
      have "scan_loop p abbrs (i, cur, out) = Some (cur', out @ map strip bufs)"
        using True keep r by (simp add: scan_loop.simps [of p abbrs i cur out])
      moreover have "concat bufs @ cur' = cur @ drop i p"
        using cat split by simp
      ultimately show ?thesis using ne by blast
    next
      assume emit: "scan_step p abbrs (i, cur, out)
                  = Some (i + n, [], out @ [strip (cur @ take n (drop i p))])
                \<and> p ! i \<in> set ''.!?''"
      define buf where "buf = cur @ take n (drop i p)"
      from less [OF smaller, of "[]" "out @ [strip buf]"]
      obtain bufs cur' where
        r: "scan_loop p abbrs (i + n, [], out @ [strip buf]) = Some (cur', (out @ [strip buf]) @ map strip bufs)"
        and ne: "\<forall>b\<in>set bufs. strip b \<noteq> []"
        and cat: "concat bufs @ cur' = [] @ drop (i + n) p"
        by blast
      have "p ! i \<in> set (take n (drop i p))"
        using True n by (cases n) (auto simp: take_Suc hd_drop_conv_nth)
      then have "p ! i \<in> set buf" by (simp add: buf_def)
      then have nb: "strip buf \<noteq> []"
        using emit terminator_not_space strip_Nil_iff by blast
      have "scan_loop p abbrs (i, cur, out) = Some (cur', out @ map strip (buf # bufs))"
        using True emit r by (simp add: scan_loop.simps [of p abbrs i cur out] buf_def)
      moreover have "concat (buf # bufs) @ cur' = cur @ drop i p"
        using cat split by (simp add: buf_def)
      moreover have "\<forall>b\<in>set (buf # bufs). strip b \<noteq> []"
        using ne nb by simp
      ultimately show ?thesis by blast
    qed
  qed
qed


lemma sublist_trans: "sublist xs ys \<Longrightarrow> sublist ys zs \<Longrightarrow> sublist xs zs"
  using sublist_order.order_trans by blast

lemma sublist_strip: "sublist (strip s) s"
proof -
  have "sublist (rstrip (lstrip s)) (lstrip s)"
    by (simp add: rstrip_def sublist_rev_left)
  moreover have "sublist (lstrip s) s"
    by (simp add: lstrip_def)
  ultimately show ?thesis
    unfolding strip_def by (rule sublist_trans)
qed

lemma sublist_member_concat: "b \<in> set bufs \<Longrightarrow> sublist b (concat bufs)"
proof -
  assume "b \<in> set bufs"
  then obtain xs ys where "bufs = xs @ b # ys"
    by (meson split_list)
  then have "concat bufs = concat xs @ b @ concat ys" by simp
  then show ?thesis by (metis sublist_appendI)
qed

lemma sublist_past_spaces:
  assumes ws: "\<forall>c\<in>set ws. isspace c" and x: "\<not> isspace x"
    and sub: "sublist (x # t) (ws @ p)"
  shows "sublist (x # t) p"
proof -
  from sub obtain pre post where eq: "ws @ p = pre @ (x # t) @ post"
    by (auto simp: sublist_def)
  then consider (a) w where "ws = pre @ w" "w @ p = (x # t) @ post"
    | (b) w where "ws @ w = pre" "p = w @ (x # t) @ post"
    by (auto simp: append_eq_append_conv2)
  then show ?thesis
  proof cases
    case a
    show ?thesis
    proof (cases w)
      case Nil
      with a show ?thesis by (metis append_Nil sublist_append_rightI)
    next
      case (Cons y w')
      with a have "x \<in> set ws" by auto
      with ws x show ?thesis by blast
    qed
  next
    case b
    then show ?thesis by (metis sublist_appendI)
  qed
qed

lemma marker_starts_with_nonspace: "\<exists>t. marker = CHR ''['' # t \<and> \<not> isspace CHR ''[''"
  by (simp add: marker_def isspace_def)

lemma strip_marker: "strip marker = marker"
  by (simp add: marker_def strip_def lstrip_def rstrip_def isspace_def)

lemma delete_whitespace_map_strip:
  "delete_whitespace (concat (map strip bufs)) = delete_whitespace (concat bufs)"
  by (induction bufs) (simp_all add: delete_whitespace_append delete_whitespace_strip)

lemma strip_nonempty_iff: "strip t \<noteq> [] \<longleftrightarrow> delete_whitespace t \<noteq> []"
  by (simp add: strip_Nil_iff delete_whitespace_Nil_iff)

lemma process_paragraph_shape:
  assumes ps: "ps \<noteq> []" and cur: "\<forall>c\<in>set cur. isspace c" and clean: "\<not> sublist marker p"
  shows "\<exists>toks cur'. process_paragraph abbrs ps p (cur, out)
           = Some (cur', out @ toks @ (if strip p \<noteq> [] \<and> p \<noteq> last ps then [marker] else []))
     \<and> (\<forall>c\<in>set cur'. isspace c)
     \<and> (\<forall>t\<in>set toks. strip t \<noteq> [] \<and> \<not> sublist marker t)
     \<and> (strip p = [] \<longrightarrow> toks = [])
     \<and> delete_whitespace (concat toks) = delete_whitespace p"
proof (cases "strip p = []")
  case True
  then have "process_paragraph abbrs ps p (cur, out)
      = Some (cur, out @ [] @ (if strip p \<noteq> [] \<and> p \<noteq> last ps then [marker] else []))"
    by (simp add: process_paragraph_def)
  moreover have "delete_whitespace (concat []) = delete_whitespace p"
    using True by (simp add: strip_Nil_iff delete_whitespace_def)
  ultimately show ?thesis using cur by fastforce
next
  case False
  from scan_loop_shape [of p abbrs 0 cur out]
  obtain bufs cur1 where loop: "scan_loop p abbrs (0, cur, out) = Some (cur1, out @ map strip bufs)"
    and ne: "\<forall>b\<in>set bufs. strip b \<noteq> []" and cat: "concat bufs @ cur1 = cur @ p"
    by auto
  define bufs' where "bufs' = (if strip cur1 \<noteq> [] then bufs @ [cur1] else bufs)"
  define cur' where "cur' = (if strip cur1 \<noteq> [] then [] else cur1)"
  have res: "process_paragraph abbrs ps p (cur, out)
      = Some (cur', out @ map strip bufs' @ (if strip p \<noteq> [] \<and> p \<noteq> last ps then [marker] else []))"
    using False loop ps by (simp add: process_paragraph_def py_last_def bufs'_def cur'_def)
  have cur': "\<forall>c\<in>set cur'. isspace c"
    by (simp add: cur'_def strip_Nil_iff)
  have ne': "\<forall>b\<in>set bufs'. strip b \<noteq> []"
    using ne by (simp add: bufs'_def)
  have dw: "delete_whitespace (concat bufs') = delete_whitespace (cur @ p)"
  proof (cases "strip cur1 \<noteq> []")
    case True
    then show ?thesis using cat by (simp add: bufs'_def)
  next
    case False
    then have "delete_whitespace cur1 = []"
      by (simp add: strip_nonempty_iff)
    moreover have "delete_whitespace (concat bufs @ cur1) = delete_whitespace (cur @ p)"
      using cat by simp
    ultimately show ?thesis using False by (simp add: bufs'_def delete_whitespace_append)
  qed
  have "delete_whitespace cur = []"
    using cur by (simp add: delete_whitespace_Nil_iff)
  with dw have content: "delete_whitespace (concat (map strip bufs')) = delete_whitespace p"
    by (simp add: delete_whitespace_map_strip delete_whitespace_append)
  have sub: "\<forall>b\<in>set bufs'. sublist b (cur @ p)"
  proof
    fix b assume "b \<in> set bufs'"
    then have "b \<in> set (bufs @ [cur1])" by (auto simp: bufs'_def split: if_splits)
    then have "sublist b (concat (bufs @ [cur1]))" by (rule sublist_member_concat)
    then show "sublist b (cur @ p)" using cat by simp
  qed
  have toks: "\<forall>t\<in>set (map strip bufs'). strip t \<noteq> [] \<and> \<not> sublist marker t"
  proof
    fix t assume "t \<in> set (map strip bufs')"
    then obtain b where b: "b \<in> set bufs'" and t: "t = strip b" by auto
    have "strip t \<noteq> []"
      using ne' b t by (simp add: strip_nonempty_iff delete_whitespace_strip)
    moreover have "\<not> sublist marker t"
    proof
      assume "sublist marker t"
      then have "sublist marker b" using t sublist_strip sublist_trans by blast
      then have "sublist marker (cur @ p)" using sub b sublist_trans by blast
      then have "sublist marker p"
        using marker_starts_with_nonspace sublist_past_spaces [OF cur] by metis
      with clean show False by simp
    qed
    ultimately show "strip t \<noteq> [] \<and> \<not> sublist marker t" by simp
  qed
  from res cur' toks content False show ?thesis by blast
qed


lemma split_from_clean:
  assumes "sep \<noteq> []"
    and "\<forall>a1 a2. acc = a1 @ a2 \<and> a2 \<noteq> [] \<longrightarrow> \<not> prefix sep (a2 @ s)"
  shows "\<forall>q\<in>set (split_from sep acc s). \<not> sublist sep q"
  using assms
proof (induction sep acc s rule: split_from.induct)
  case (1 sep acc)
  have "\<not> sublist sep acc"
  proof
    assume "sublist sep acc"
    then obtain a1 ss where "acc = a1 @ sep @ ss" by (auto simp: sublist_def)
    with 1 show False by (metis append_Nil2 append_is_Nil_conv prefix_append prefix_order.refl append.assoc)
  qed
  then show ?case by simp
next
  case (2 sep acc c cs)
  have acc: "\<not> sublist sep acc" if "prefix sep (c # cs)"
  proof
    assume "sublist sep acc"
    then obtain a1 ss where a: "acc = a1 @ sep @ ss" by (auto simp: sublist_def)
    have "prefix sep ((sep @ ss) @ c # cs)" by simp
    moreover have "sep @ ss \<noteq> []" using "2.prems"(1) by simp
    ultimately show False using "2.prems"(2) a by blast
  qed
  show ?case
  proof (cases "prefix sep (c # cs)")
    case True
    have "\<forall>q\<in>set (split_from sep [] (drop (length sep) (c # cs))). \<not> sublist sep q"
      using "2.IH"(1) "2.prems"(1) True by simp
    then show ?thesis using True acc "2.prems"(1) by simp
  next
    case False
    have inv: "\<forall>a1 a2. acc @ [c] = a1 @ a2 \<and> a2 \<noteq> [] \<longrightarrow> \<not> prefix sep (a2 @ cs)"
    proof (intro allI impI)
      fix a1 a2 assume h: "acc @ [c] = a1 @ a2 \<and> a2 \<noteq> []"
      then obtain a2' where a2: "a2 = a2' @ [c]" and a1: "acc = a1 @ a2'"
        by (metis append_butlast_last_id butlast_append butlast_snoc last_appendR last_snoc)
      show "\<not> prefix sep (a2 @ cs)"
      proof (cases "a2' = []")
        case True
        then show ?thesis using False a2 by simp
      next
        case False
        then show ?thesis using "2.prems"(2) a1 a2 by simp
      qed
    qed
    have "\<forall>q\<in>set (split_from sep (acc @ [c]) cs). \<not> sublist sep q"
      using "2.IH"(2) False "2.prems"(1) inv by blast
    then show ?thesis using False by simp
  qed
qed

lemma py_split_clean:
  "sep \<noteq> [] \<Longrightarrow> \<forall>q\<in>set (py_split s sep). \<not> sublist sep q"
  unfolding py_split_def by (rule split_from_clean) auto

lemma split_from_nonempty: "split_from sep acc s \<noteq> []"
  by (induction sep acc s rule: split_from.induct) auto

lemma paragraphs_clean: "\<forall>q\<in>set (py_split text marker). \<not> sublist marker q"
  by (rule py_split_clean) (simp add: marker_def)

text \<open>
  The pieces \<open>split\<close> returns, joined with the separator, are the text: the
  paragraphs are the text between the markers, and their concatenation is the text
  with every marker cut out.
\<close>

fun py_join :: "'a list \<Rightarrow> 'a list list \<Rightarrow> 'a list" where
  "py_join sep [] = []"
| "py_join sep [x] = x"
| "py_join sep (x # y # ys) = x @ sep @ py_join sep (y # ys)"

lemma py_join_split_from: "py_join sep (split_from sep acc s) = acc @ s"
proof (induction sep acc s rule: split_from.induct)
  case (1 sep acc)
  show ?case by simp
next
  case (2 sep acc c cs)
  show ?case
  proof (cases "sep \<noteq> [] \<and> prefix sep (c # cs)")
    case True
    then obtain rest where rest: "c # cs = sep @ rest"
      by (auto simp: prefix_def)
    then have d: "drop (length sep) (c # cs) = rest" by simp
    have unfold: "split_from sep acc (c # cs) = acc # split_from sep [] rest"
      using True d by simp
    obtain x xs where sp: "split_from sep [] rest = x # xs"
      by (cases "split_from sep [] rest") (auto simp: split_from_nonempty)
    have "py_join sep (split_from sep [] rest) = rest"
      using "2.IH"(1) True d by simp
    then have "py_join sep (acc # split_from sep [] rest) = acc @ sep @ rest"
      using sp by simp
    then have "py_join sep (split_from sep acc (c # cs)) = acc @ sep @ rest"
      by (simp only: unfold)
    then show ?thesis by (simp only: rest)
  next
    case False
    then show ?thesis using "2.IH"(2) by auto
  qed
qed

lemma py_join_py_split: "py_join sep (py_split s sep) = s"
  by (simp add: py_split_def py_join_split_from)

lemma paragraphs_loop_result:
  assumes "ps \<noteq> []" and "\<forall>c\<in>set cur. isspace c" and "\<forall>q\<in>set qs. \<not> sublist marker q"
  shows "\<exists>cur' new. paragraphs_loop abbrs ps qs (cur, out) = Some (cur', out @ new)
      \<and> (\<forall>t\<in>set new. strip t \<noteq> [] \<and> (t = marker \<or> \<not> sublist marker t))
      \<and> delete_whitespace (concat (filter (\<lambda>t. t \<noteq> marker) new)) = delete_whitespace (concat qs)
      \<and> count_list new marker = length (filter (\<lambda>q. strip q \<noteq> [] \<and> q \<noteq> last ps) qs)"
  using assms
proof (induction qs arbitrary: cur out)
  case Nil
  have "paragraphs_loop abbrs ps [] (cur, out) = Some (cur, out @ [])" by simp
  then show ?case by force
next
  case (Cons q qs)
  define mk where "mk = (if strip q \<noteq> [] \<and> q \<noteq> last ps then [marker] else [])"
  from Cons.prems have clean: "\<not> sublist marker q" by simp
  from process_paragraph_shape [OF Cons.prems(1,2) clean, of abbrs out]
  obtain toks cur1 where
    step: "process_paragraph abbrs ps q (cur, out) = Some (cur1, out @ toks @ mk)"
    and cur1: "\<forall>c\<in>set cur1. isspace c"
    and toks: "\<forall>t\<in>set toks. strip t \<noteq> [] \<and> \<not> sublist marker t"
    and content: "delete_whitespace (concat toks) = delete_whitespace q"
    unfolding mk_def by blast
  from Cons.IH [OF Cons.prems(1) cur1, of "out @ toks @ mk"] Cons.prems(3)
  obtain cur' new where
    rest: "paragraphs_loop abbrs ps qs (cur1, out @ toks @ mk) = Some (cur', (out @ toks @ mk) @ new)"
    and new: "\<forall>t\<in>set new. strip t \<noteq> [] \<and> (t = marker \<or> \<not> sublist marker t)"
    and cnew: "delete_whitespace (concat (filter (\<lambda>t. t \<noteq> marker) new)) = delete_whitespace (concat qs)"
    and count: "count_list new marker = length (filter (\<lambda>q. strip q \<noteq> [] \<and> q \<noteq> last ps) qs)"
    by auto
  have no_marker: "marker \<notin> set toks"
    using toks by auto
  then have keep: "filter (\<lambda>t. t \<noteq> marker) toks = toks"
    by (auto simp: filter_id_conv)
  have drop_mk: "filter (\<lambda>t. t \<noteq> marker) mk = []"
    by (simp add: mk_def)
  have mk_ok: "\<forall>t\<in>set mk. strip t \<noteq> [] \<and> t = marker"
    by (simp add: mk_def strip_marker) (simp add: marker_def)
  have "paragraphs_loop abbrs ps (q # qs) (cur, out) = Some (cur', out @ (toks @ mk @ new))"
    using step rest by simp
  moreover have "\<forall>t\<in>set (toks @ mk @ new). strip t \<noteq> [] \<and> (t = marker \<or> \<not> sublist marker t)"
    using toks mk_ok new by auto
  moreover have "delete_whitespace (concat (filter (\<lambda>t. t \<noteq> marker) (toks @ mk @ new)))
      = delete_whitespace (concat (q # qs))"
    using keep drop_mk cnew content by (simp add: delete_whitespace_append)
  moreover have "count_list (toks @ mk @ new) marker
      = length (filter (\<lambda>q. strip q \<noteq> [] \<and> q \<noteq> last ps) (q # qs))"
    using no_marker count by (simp add: count_list_0_iff mk_def)
  ultimately show ?case by blast
qed

lemma split_into_sentences_result:
  "\<exists>toks. split_into_sentences text abbrs = Some toks
      \<and> (\<forall>t\<in>set toks. strip t \<noteq> [] \<and> (t = marker \<or> \<not> sublist marker t))
      \<and> delete_whitespace (concat (filter (\<lambda>t. t \<noteq> marker) toks))
          = delete_whitespace (concat (py_split text marker))
      \<and> count_list toks marker
          = length (filter (\<lambda>q. strip q \<noteq> [] \<and> q \<noteq> last (py_split text marker))
                           (py_split text marker))"
proof -
  have ne: "py_split text marker \<noteq> []"
    by (simp add: py_split_def split_from_nonempty)
  have "\<exists>cur' new. paragraphs_loop abbrs (py_split text marker) (py_split text marker) ([], [])
            = Some (cur', [] @ new)
      \<and> (\<forall>t\<in>set new. strip t \<noteq> [] \<and> (t = marker \<or> \<not> sublist marker t))
      \<and> delete_whitespace (concat (filter (\<lambda>t. t \<noteq> marker) new))
          = delete_whitespace (concat (py_split text marker))
      \<and> count_list new marker
          = length (filter (\<lambda>q. strip q \<noteq> [] \<and> q \<noteq> last (py_split text marker))
                           (py_split text marker))"
    using ne paragraphs_clean by (intro paragraphs_loop_result) auto
  then show ?thesis
    by (auto simp: split_into_sentences_def)
qed

lemma paragraphs_loop_layout:
  assumes "ps \<noteq> []" and "\<forall>c\<in>set cur. isspace c" and "\<forall>q\<in>set qs. \<not> sublist marker q"
  shows "\<exists>cur' tokss. paragraphs_loop abbrs ps qs (cur, out)
        = Some (cur', out @ concat (map2 (\<lambda>q ts. ts @ (if strip q \<noteq> [] \<and> q \<noteq> last ps
                                                        then [marker] else [])) qs tokss))
      \<and> length tokss = length qs
      \<and> (\<forall>k<length qs. marker \<notin> set (tokss ! k) \<and> (strip (qs ! k) = [] \<longrightarrow> tokss ! k = [])
            \<and> delete_whitespace (concat (tokss ! k)) = delete_whitespace (qs ! k))"
  using assms
proof (induction qs arbitrary: cur out)
  case Nil
  then show ?case by simp
next
  case (Cons q qs)
  define mk where "mk = (if strip q \<noteq> [] \<and> q \<noteq> last ps then [marker] else [])"
  from Cons.prems have clean: "\<not> sublist marker q" by simp
  from process_paragraph_shape [OF Cons.prems(1,2) clean, of abbrs out]
  obtain toks cur1 where
    step: "process_paragraph abbrs ps q (cur, out) = Some (cur1, out @ toks @ mk)"
    and cur1: "\<forall>c\<in>set cur1. isspace c"
    and toks: "\<forall>t\<in>set toks. strip t \<noteq> [] \<and> \<not> sublist marker t"
    and blank: "strip q = [] \<longrightarrow> toks = []"
    and content: "delete_whitespace (concat toks) = delete_whitespace q"
    unfolding mk_def by blast
  from Cons.IH [OF Cons.prems(1) cur1, of "out @ toks @ mk"] Cons.prems(3)
  obtain cur' tokss where
    rest: "paragraphs_loop abbrs ps qs (cur1, out @ toks @ mk)
        = Some (cur', (out @ toks @ mk) @ concat (map2 (\<lambda>q ts. ts @ (if strip q \<noteq> [] \<and> q \<noteq> last ps
                                                        then [marker] else [])) qs tokss))"
    and len: "length tokss = length qs"
    and each: "\<forall>k<length qs. marker \<notin> set (tokss ! k) \<and> (strip (qs ! k) = [] \<longrightarrow> tokss ! k = [])
            \<and> delete_whitespace (concat (tokss ! k)) = delete_whitespace (qs ! k)"
    by auto
  have no_marker: "marker \<notin> set toks"
    using toks by auto
  have "paragraphs_loop abbrs ps (q # qs) (cur, out)
      = Some (cur', out @ concat (map2 (\<lambda>q ts. ts @ (if strip q \<noteq> [] \<and> q \<noteq> last ps
                                                        then [marker] else [])) (q # qs) (toks # tokss)))"
    using step rest by (simp add: mk_def)
  moreover have "length (toks # tokss) = length (q # qs)"
    using len by simp
  moreover have "\<forall>k<length (q # qs). marker \<notin> set ((toks # tokss) ! k)
        \<and> (strip ((q # qs) ! k) = [] \<longrightarrow> (toks # tokss) ! k = [])
        \<and> delete_whitespace (concat ((toks # tokss) ! k)) = delete_whitespace ((q # qs) ! k)"
    using each no_marker blank content by (auto simp: nth_Cons split: nat.splits)
  ultimately show ?case by blast
qed

lemma map2_by_index:
  "length xs = length ys \<Longrightarrow> map2 f xs ys = map (\<lambda>k. f (xs ! k) (ys ! k)) [0..<length xs]"
  by (rule nth_equalityI) simp_all

lemma last_differs_by_position:
  assumes "\<forall>q\<in>set (butlast ps). strip q \<noteq> [] \<longrightarrow> q \<noteq> last ps" and "k < length ps"
  shows "(strip (ps ! k) \<noteq> [] \<and> ps ! k \<noteq> last ps) \<longleftrightarrow> (strip (ps ! k) \<noteq> [] \<and> k + 1 < length ps)"
proof (cases "k + 1 < length ps")
  case True
  then have "ps ! k \<in> set (butlast ps)"
    by (metis add_lessD1 length_butlast less_diff_conv nth_butlast nth_mem)
  with assms True show ?thesis by blast
next
  case False
  with assms(2) have "k = length ps - 1" by simp
  then have "ps ! k = last ps"
    using assms(2) by (metis last_conv_nth length_greater_0_conv less_nat_zero_code not_gr_zero)
  with False show ?thesis by simp
qed

lemma count_nonblank_before_last:
  assumes "ps \<noteq> []" and "\<forall>q\<in>set (butlast ps). strip q \<noteq> [] \<longrightarrow> q \<noteq> last ps"
  shows "length (filter (\<lambda>q. strip q \<noteq> [] \<and> q \<noteq> last ps) ps)
       = length (filter (\<lambda>q. strip q \<noteq> []) (butlast ps))"
proof -
  have "ps = butlast ps @ [last ps]" using assms(1) by simp
  then have "filter (\<lambda>q. strip q \<noteq> [] \<and> q \<noteq> last ps) ps
      = filter (\<lambda>q. strip q \<noteq> [] \<and> q \<noteq> last ps) (butlast ps)"
    by (metis (mono_tags, lifting) append_Nil2 filter.simps(1) filter.simps(2) filter_append)
  also have "\<dots> = filter (\<lambda>q. strip q \<noteq> []) (butlast ps)"
    using assms(2) by (intro filter_cong) auto
  finally show ?thesis by simp
qed


lemma split_into_sentences_layout:
  assumes "\<forall>q\<in>set (butlast (py_split text marker)). strip q \<noteq> [] \<longrightarrow> q \<noteq> last (py_split text marker)"
  shows "\<exists>tokss. length tokss = length (py_split text marker)
      \<and> split_into_sentences text abbrs
          = Some (concat (map (\<lambda>k. tokss ! k
                                  @ (if strip (py_split text marker ! k) \<noteq> []
                                        \<and> k + 1 < length (py_split text marker)
                                     then [marker] else []))
                              [0..<length (py_split text marker)]))
      \<and> (\<forall>k<length (py_split text marker).
            marker \<notin> set (tokss ! k) \<and> (strip (py_split text marker ! k) = [] \<longrightarrow> tokss ! k = [])
            \<and> delete_whitespace (concat (tokss ! k)) = delete_whitespace (py_split text marker ! k))"
proof -
  define ps where "ps = py_split text marker"
  have ne: "ps \<noteq> []"
    by (simp add: ps_def py_split_def split_from_nonempty)
  have clean: "\<forall>q\<in>set ps. \<not> sublist marker q"
    unfolding ps_def by (rule paragraphs_clean)
  have "\<exists>cur' tokss. paragraphs_loop abbrs ps ps ([], [])
        = Some (cur', [] @ concat (map2 (\<lambda>q ts. ts @ (if strip q \<noteq> [] \<and> q \<noteq> last ps
                                                        then [marker] else [])) ps tokss))
      \<and> length tokss = length ps
      \<and> (\<forall>k<length ps. marker \<notin> set (tokss ! k) \<and> (strip (ps ! k) = [] \<longrightarrow> tokss ! k = [])
            \<and> delete_whitespace (concat (tokss ! k)) = delete_whitespace (ps ! k))"
    using ne clean by (intro paragraphs_loop_layout) auto
  then obtain cur' tokss where
    run: "paragraphs_loop abbrs ps ps ([], [])
        = Some (cur', concat (map2 (\<lambda>q ts. ts @ (if strip q \<noteq> [] \<and> q \<noteq> last ps
                                                        then [marker] else [])) ps tokss))"
    and len: "length tokss = length ps"
    and each: "\<forall>k<length ps. marker \<notin> set (tokss ! k) \<and> (strip (ps ! k) = [] \<longrightarrow> tokss ! k = [])
            \<and> delete_whitespace (concat (tokss ! k)) = delete_whitespace (ps ! k)"
    by auto
  have "map2 (\<lambda>q ts. ts @ (if strip q \<noteq> [] \<and> q \<noteq> last ps then [marker] else [])) ps tokss
      = map (\<lambda>k. tokss ! k @ (if strip (ps ! k) \<noteq> [] \<and> ps ! k \<noteq> last ps then [marker] else []))
            [0..<length ps]"
    using len by (simp add: map2_by_index)
  also have "\<dots> = map (\<lambda>k. tokss ! k @ (if strip (ps ! k) \<noteq> [] \<and> k + 1 < length ps then [marker] else []))
            [0..<length ps]"
    using last_differs_by_position [of ps] assms
    unfolding ps_def [symmetric] by (intro map_cong) auto
  finally have "split_into_sentences text abbrs
      = Some (concat (map (\<lambda>k. tokss ! k @ (if strip (ps ! k) \<noteq> [] \<and> k + 1 < length ps
                                              then [marker] else []))
                          [0..<length ps]))"
    using run by (simp add: split_into_sentences_def ps_def [symmetric])
  with len each show ?thesis
    unfolding ps_def by blast
qed

section \<open>The shape of a normalized text\<close>

fun collapsed :: "string \<Rightarrow> bool" where
  "collapsed [] = True"
| "collapsed (c # cs) =
     ((isspace c \<longrightarrow> c = CHR '' '' \<and> (cs = [] \<or> \<not> isspace (hd cs))) \<and> collapsed cs)"

lemma sub_blank_lines_no_newline: "newline \<notin> set s \<Longrightarrow> sub_blank_lines s = s"
  by (induction s) (auto simp: blank_line_rest_def)

lemma sub_newlines_no_newline: "newline \<notin> set s \<Longrightarrow> sub_newlines s = s"
  by (induction s) auto

lemma sub_spaces_head:
  "s = [] \<or> \<not> isspace (hd s) \<Longrightarrow> sub_spaces s = [] \<or> \<not> isspace (hd (sub_spaces s))"
  by (cases s) auto

lemma collapsed_sub_spaces: "collapsed (sub_spaces s)"
proof (induction s rule: sub_spaces.induct)
  case 1
  show ?case by simp
next
  case (2 c cs)
  show ?case
  proof (cases "isspace c")
    case True
    have "dropWhile isspace cs = [] \<or> \<not> isspace (hd (dropWhile isspace cs))"
      using hd_dropWhile by blast
    then have "sub_spaces (dropWhile isspace cs) = []
        \<or> \<not> isspace (hd (sub_spaces (dropWhile isspace cs)))"
      by (rule sub_spaces_head)
    with True "2.IH"(1) show ?thesis by simp
  next
    case False
    with "2.IH"(2) show ?thesis by simp
  qed
qed

lemma sub_spaces_collapsed: "collapsed s \<Longrightarrow> sub_spaces s = s"
proof (induction s)
  case Nil
  show ?case by simp
next
  case (Cons c cs)
  show ?case
  proof (cases "isspace c")
    case True
    with Cons.prems have "c = CHR '' ''" and "cs = [] \<or> \<not> isspace (hd cs)" by auto
    then have "dropWhile isspace cs = cs" by (cases cs) auto
    with True Cons \<open>c = CHR '' ''\<close> show ?thesis by simp
  next
    case False
    with Cons show ?thesis by simp
  qed
qed

lemma collapsed_dropWhile: "collapsed s \<Longrightarrow> collapsed (dropWhile P s)"
  by (induction s) auto

lemma collapsed_prefix: "collapsed (xs @ ys) \<Longrightarrow> collapsed xs"
  by (induction xs) (auto simp: hd_append)

lemma rstrip_decompose: "s = rstrip s @ rev (takeWhile isspace (rev s))"
proof -
  have "rev (dropWhile isspace (rev s)) @ rev (takeWhile isspace (rev s))
      = rev (takeWhile isspace (rev s) @ dropWhile isspace (rev s))"
    by (simp only: rev_append)
  also have "\<dots> = s"
    by (simp only: takeWhile_dropWhile_id rev_rev_ident)
  finally show ?thesis by (simp only: rstrip_def)
qed

lemma collapsed_strip: "collapsed s \<Longrightarrow> collapsed (strip s)"
proof -
  assume "collapsed s"
  then have "collapsed (lstrip s)" by (simp add: lstrip_def collapsed_dropWhile)
  then have "collapsed (rstrip (lstrip s) @ rev (takeWhile isspace (rev (lstrip s))))"
    using rstrip_decompose [of "lstrip s"] by simp
  then show ?thesis unfolding strip_def by (rule collapsed_prefix)
qed

lemma collapsed_no_newline: "collapsed s \<Longrightarrow> newline \<notin> set s"
  by (induction s) (auto simp: isspace_def newline_def)

lemma rstrip_idem: "rstrip (rstrip s) = rstrip s"
  by (simp add: rstrip_def)

lemma strip_idem: "strip (strip s) = strip s"
proof (cases "strip s = []")
  case True
  have "strip [] = []" by (simp add: strip_def lstrip_def rstrip_def)
  with True show ?thesis by simp
next
  case False
  define m where "m = lstrip s"
  have t: "strip s = rstrip m" by (simp add: strip_def m_def)
  with False have "m \<noteq> []" by (auto simp: rstrip_def)
  then have "\<not> isspace (hd m)"
    unfolding m_def lstrip_def using hd_dropWhile by blast
  moreover have "hd (rstrip m) = hd m"
    using rstrip_decompose [of m] False t by (metis hd_append2)
  ultimately have "lstrip (rstrip m) = rstrip m"
    using False t by (cases "rstrip m") (auto simp: lstrip_def)
  then show ?thesis
    by (simp add: strip_def [of "rstrip m"] t rstrip_idem)
qed

section \<open>The quote and parenthesis guard\<close>

lemma guard_keeps_scanning:
  assumes "i < length p" and "p ! i \<in> set ''.!?''"
    and "count_list (cur @ [p ! i]) dquote mod 2 \<noteq> 0
         \<or> count_list (cur @ [p ! i]) CHR ''('' > count_list (cur @ [p ! i]) CHR '')''"
  shows "\<exists>n. (n = 1 \<or> n = 3) \<and>
           scan_step p abbrs (i, cur, out) = Some (i + n, cur @ take n (drop i p), out)"
proof -
  define n :: nat where "n = (if is_ellipsis_at p i (p ! i) then 3 else 1)"
  have n: "n = 1 \<or> n = 3" by (simp add: n_def)
  from scan_step_terminator [OF assms(1,2), of cur abbrs out] assms(3)
  have "scan_step p abbrs (i, cur, out) = Some (i + n, cur @ take n (drop i p), out)"
    unfolding n_def [symmetric] by (auto simp: is_sentence_end_def)
  with n show ?thesis by blast
qed

lemma parenthetical_text_normal:
  "preprocess_text ''This is a sentence with (a parenthetical. Still inside) and done.''
   = ''This is a sentence with (a parenthetical. Still inside) and done.''"
  by (simp add: char_defs str_defs pre_defs Let_def)

lemma parenthetical_one_sentence:
  "split_into_sentences ''This is a sentence with (a parenthetical. Still inside) and done.'' abbrs
   = Some [''This is a sentence with (a parenthetical. Still inside) and done.'']"
  by (simp add: char_defs re_defs str_defs scan_defs pre_defs default_abbreviations_def Let_def
        cong: bind_arg_cong let_arg_cong option.case_cong_weak prod.case_cong_weak)

text \<open>
  Claim C7. When the scanner reads \<open>.\<close>, \<open>!\<close> or \<open>?\<close> and the buffer, with that
  character appended, holds an odd number of double quotes or more \<open>(\<close> than \<open>)\<close>,
  the step emits nothing: the list of sentences is unchanged, the buffer keeps every
  character read (the one character, or the three dots of an ellipsis) and the index
  moves past them. The text with the parenthetical of the spec comes out, for every
  set of abbreviations, as one sentence.
\<close>

theorem quote_paren_guard_suppresses_boundary:
  "(\<forall>p abbrs i cur out.
      i < length p \<longrightarrow> p ! i \<in> set ''.!?'' \<longrightarrow>
      (count_list (cur @ [p ! i]) dquote mod 2 \<noteq> 0
       \<or> count_list (cur @ [p ! i]) CHR ''('' > count_list (cur @ [p ! i]) CHR '')'') \<longrightarrow>
      (\<exists>n. (n = 1 \<or> n = 3) \<and>
           scan_step p abbrs (i, cur, out) = Some (i + n, cur @ take n (drop i p), out)))
   \<and> (\<forall>abbrs.
        split_into_sentences
          (preprocess_text ''This is a sentence with (a parenthetical. Still inside) and done.'')
          abbrs
        = Some [''This is a sentence with (a parenthetical. Still inside) and done.''])"
  using guard_keeps_scanning parenthetical_one_sentence
  by (simp only: parenthetical_text_normal) blast

theorem quote_paren_guard_witness:
  "(2::nat) < length ''(a. b)'' \<and> ''(a. b)'' ! 2 \<in> set ''.!?''
   \<and> count_list (''(a'' @ [''(a. b)'' ! 2]) CHR ''('' > count_list (''(a'' @ [''(a. b)'' ! 2]) CHR '')''
   \<and> (\<exists>n. (n = 1 \<or> n = 3) \<and>
          scan_step ''(a. b)'' {} (2, ''(a'', [])
          = Some (2 + n, ''(a'' @ take n (drop 2 ''(a. b)''), []))"
proof -
  have h1: "(2::nat) < length ''(a. b)''" by simp
  have h2: "''(a. b)'' ! 2 \<in> set ''.!?''" by simp
  have h3: "count_list (''(a'' @ [''(a. b)'' ! 2]) CHR ''(''
            > count_list (''(a'' @ [''(a. b)'' ! 2]) CHR '')''" by simp
  from quote_paren_guard_suppresses_boundary h1 h2 h3
  have "\<exists>n. (n = 1 \<or> n = 3) \<and>
          scan_step ''(a. b)'' {} (2, ''(a'', [])
          = Some (2 + n, ''(a'' @ take n (drop 2 ''(a. b)''), [])"
    by blast
  with h1 h2 h3 show ?thesis by blast
qed

section \<open>The examples of the spec that the code does not reproduce\<close>

lemma no_capital_after_dot: "\<not> re_match capital_pattern (CHR ''.'' # xs)"
proof -
  have dead: "\<not> re_match (RAlt (RSeq (RSeq RNone a) b) RNone) w" for a b w
    by (induction w) simp_all
  have "deriv CHR ''.'' capital_pattern
      = RAlt (RSeq (RSeq RNone (RStar (RClass isspace))) (RClass ascii_upper)) RNone"
    by (simp add: capital_pattern_def isspace_def ascii_upper_def)
  moreover have "\<not> nullable capital_pattern"
    by (simp add: capital_pattern_def)
  ultimately show ?thesis using dead by simp
qed

lemma ellipsis_keeps_scanning:
  assumes "i < length p" and ell: "is_ellipsis_at p i (p ! i)"
  shows "scan_step p abbrs (i, cur, out) = Some (i + 3, cur @ take 3 (drop i p), out)"
proof -
  from ell have dot: "p ! i = CHR ''.''" and len: "i + 2 < length p"
    and two: "slice p (i + 1) (i + 3) = ''..''"
    by (simp_all add: is_ellipsis_at_def)
  have trm: "p ! i \<in> set ''.!?''" using dot by simp
  from two have "take 2 (drop (i + 1) p) = ''..''" by (simp add: slice_def)
  then have "\<exists>xs. take 19 (drop (i + 1) p) = CHR ''.'' # xs"
    by (cases "drop (i + 1) p") (auto simp: take_Suc_Cons numeral_2_eq_2)
  then obtain xs where next_chars: "slice p (i + 1) (i + 20) = CHR ''.'' # xs"
    by (auto simp: slice_def)
  have "lstrip (CHR ''.'' # xs) = CHR ''.'' # xs"
    by (simp add: lstrip_def isspace_def)
  then have no: "\<not> re_match capital_pattern (lstrip (slice p (i + 1) (i + 20)))"
    using next_chars no_capital_after_dot by simp
  from scan_step_terminator [OF assms(1) trm, of cur abbrs out] ell len no
  show ?thesis by (auto simp: is_sentence_end_def)
qed

lemma ellipsis_example:
  "split_into_sentences (preprocess_text ''He left... Then it happened.'') default_abbreviations
   = Some [''He left... Then it happened.'']"
  by (simp add: char_defs re_defs str_defs scan_defs pre_defs default_abbreviations_def Let_def
        cong: bind_arg_cong let_arg_cong option.case_cong_weak prod.case_cong_weak)

text \<open>
  Claim C1. \<open>next_chars\<close> is taken at the first dot, before the other two dots are
  consumed, so it starts with two dots and never matches \<open>^\s*[A-Z]\<close>: at an ellipsis
  the step never emits a sentence, whatever follows the dots. The spec's example of
  an ellipsis before a capital letter comes out as one sentence.
\<close>

theorem ellipsis_never_ends_sentence:
  "(\<forall>p abbrs i cur out.
      i < length p \<longrightarrow> is_ellipsis_at p i (p ! i) \<longrightarrow>
      scan_step p abbrs (i, cur, out) = Some (i + 3, cur @ take 3 (drop i p), out))
   \<and> split_into_sentences (preprocess_text ''He left... Then it happened.'')
         default_abbreviations
       = Some [''He left... Then it happened.'']"
  using ellipsis_keeps_scanning ellipsis_example by blast

theorem ellipsis_never_ends_sentence_witness:
  "(1::nat) < length ''a... B'' \<and> is_ellipsis_at ''a... B'' 1 (''a... B'' ! 1)
   \<and> scan_step ''a... B'' {} (1, ''a'', []) = Some (4, ''a...'', [])"
proof -
  have h1: "(1::nat) < length ''a... B''" by simp
  have h2: "is_ellipsis_at ''a... B'' 1 (''a... B'' ! 1)"
    by (simp add: is_ellipsis_at_def slice_def)
  from ellipsis_never_ends_sentence h1 h2
  have "scan_step ''a... B'' {} (1, ''a'', [])
        = Some (1 + 3, ''a'' @ take 3 (drop 1 ''a... B''), [])"
    by blast
  then have "scan_step ''a... B'' {} (1, ''a'', []) = Some (4, ''a...'', [])"
    by simp
  with h1 h2 show ?thesis by blast
qed

text \<open>
  Claim C2. The spec's dialogue example: the code returns the whole text as one
  sentence, because \<open>said.\<close> matches the first abbreviation pattern and the second
  period stands inside an open quote.
\<close>

theorem dialogue_example_is_one_sentence:
  "split_into_sentences
     (preprocess_text (dquote # ''Stop,'' @ dquote # '' she said. '' @ dquote # ''Now.'' @ [dquote]))
     default_abbreviations
   = Some [dquote # ''Stop,'' @ dquote # '' she said. '' @ dquote # ''Now.'' @ [dquote]]"
  by (simp add: char_defs re_defs str_defs scan_defs pre_defs default_abbreviations_def Let_def
        cong: bind_arg_cong let_arg_cong option.case_cong_weak prod.case_cong_weak)

lemma letters_in_star:
  "\<forall>c\<in>set w. ascii_letter c \<Longrightarrow> w \<in> star (lang (RClass ascii_letter))"
proof (induction w)
  case Nil
  show ?case by (rule star_empty)
next
  case (Cons c w)
  then have "[c] \<in> lang (RClass ascii_letter)" and "w \<in> star (lang (RClass ascii_letter))"
    by simp_all
  then have "[c] @ w \<in> star (lang (RClass ascii_letter))" by (rule star_more)
  then show ?case by simp
qed

lemma letters_in_plus:
  assumes "w \<noteq> []" and "\<forall>c\<in>set w. ascii_letter c"
  shows "w \<in> lang (RPlus (RClass ascii_letter))"
proof -
  from assms obtain c w' where w: "w = c # w'" by (cases w) auto
  with assms(2) have "[c] \<in> lang (RClass ascii_letter)" by simp
  moreover from w assms(2) have "w' \<in> star (lang (RClass ascii_letter))"
    by (intro letters_in_star) simp
  ultimately
  have "[c] @ w' \<in> conc (lang (RClass ascii_letter)) (star (lang (RClass ascii_letter)))"
    unfolding conc_def by blast
  with w show ?thesis by (simp add: RPlus_def)
qed

lemma letter_is_any_char: "ascii_letter c \<Longrightarrow> any_char c"
  by (auto simp: ascii_letter_def ascii_upper_def ascii_lower_def any_char_def newline_def)

lemma long_word_matches_multi_part:
  assumes "3 \<le> length w" and letters: "\<forall>c\<in>set w. ascii_letter c"
  shows "re_match_dollar multi_part_pattern (w @ ''.'')"
proof -
  from assms(1) obtain a b rest where w: "w = a # b # rest" and rest: "rest \<noteq> []"
    by (cases w; cases "tl w"; cases "tl (tl w)") auto
  let ?group = "RSeq (RPlus (RClass ascii_letter)) (RClass any_char)"
  have "[a] \<in> lang (RPlus (RClass ascii_letter))"
    using letters w by (intro letters_in_plus) auto
  moreover have "[b] \<in> lang (RClass any_char)"
    using letters w by (simp add: letter_is_any_char)
  ultimately have "[a] @ [b] \<in> lang ?group"
    unfolding lang.simps conc_def by blast
  then have first: "[a, b] \<in> lang ?group" by simp
  have "rest \<in> lang (RPlus (RClass ascii_letter))"
    using letters w rest by (intro letters_in_plus) auto
  moreover have "''.'' \<in> lang (RClass any_char)"
    by (simp add: any_char_def newline_def)
  ultimately have "rest @ ''.'' \<in> lang ?group"
    unfolding lang.simps conc_def by blast
  moreover have "[] \<in> star (lang ?group)" by (rule star_empty)
  ultimately have "(rest @ ''.'') @ [] \<in> conc (lang ?group) (star (lang ?group))"
    unfolding conc_def by blast
  then have second: "rest @ ''.'' \<in> lang (RPlus ?group)"
    by (simp add: RPlus_def)
  from first second have "[a, b] @ (rest @ ''.'') \<in> lang multi_part_pattern"
    unfolding multi_part_pattern_def lang.simps(5) [of ?group] conc_def by blast
  then have "w @ ''.'' \<in> lang multi_part_pattern"
    using w by simp
  then show ?thesis
    by (simp add: re_match_dollar_def re_fullmatch_lang)
qed

lemma home_example:
  "re_match_dollar multi_part_pattern ''home.'' \<and> re_match_dollar multi_part_pattern ''sat.''
   \<and> split_into_sentences (preprocess_text ''We went home. It rained.'') default_abbreviations
       = Some [''We went home. It rained.'']"
  by (simp add: char_defs re_defs str_defs scan_defs pre_defs default_abbreviations_def Let_def
        cong: bind_arg_cong let_arg_cong option.case_cong_weak prod.case_cong_weak)

text \<open>
  Claim C3. The first abbreviation pattern is written with an unescaped \<open>.\<close>, which
  matches any character: it accepts every word of three or more letters followed by
  a period, among them the ordinary words \<open>home.\<close> and \<open>sat.\<close>, and the period
  after \<open>home\<close> does not end a sentence.
\<close>

theorem ordinary_words_match_multi_part_pattern:
  "(\<forall>w. 3 \<le> length w \<longrightarrow> (\<forall>c\<in>set w. ascii_letter c) \<longrightarrow>
        re_match_dollar multi_part_pattern (w @ ''.''))
   \<and> re_match_dollar multi_part_pattern ''home.'' \<and> re_match_dollar multi_part_pattern ''sat.''
   \<and> split_into_sentences (preprocess_text ''We went home. It rained.'') default_abbreviations
       = Some [''We went home. It rained.'']"
  using long_word_matches_multi_part home_example by blast

theorem ordinary_words_match_multi_part_pattern_witness:
  "(3::nat) \<le> length ''rained'' \<and> list_all ascii_letter ''rained''
   \<and> re_match_dollar multi_part_pattern (''rained'' @ ''.'')"
proof -
  have h1: "(3::nat) \<le> length ''rained''" by simp
  have h2: "\<forall>c\<in>set ''rained''. ascii_letter c"
    by (simp add: ascii_letter_def ascii_lower_def ascii_upper_def)
  from ordinary_words_match_multi_part_pattern h1 h2
  have "re_match_dollar multi_part_pattern (''rained'' @ ''.'')" by blast
  with h1 h2 show ?thesis by (simp add: list_all_iff)
qed

text \<open>
  Claim C4 fails as stated. A text that starts and ends with a blank line has three
  paragraphs, the first and the last empty. The first paragraph is not the last one
  and no marker follows it; the output holds one marker, which is neither the number
  of paragraphs less one nor the number of non-blank paragraphs less one.
\<close>

theorem blank_paragraph_gets_no_marker:
  "py_split (preprocess_text ([newline, newline] @ ''Hi.'' @ [newline, newline])) marker
     = [[], '' Hi. '', []]
   \<and> split_into_sentences (preprocess_text ([newline, newline] @ ''Hi.'' @ [newline, newline]))
         default_abbreviations
     = Some [''Hi.'', marker]
   \<and> count_list [''Hi.'', marker] marker = 1
   \<and> length [[], '' Hi. '', []::string] - 1 = 2
   \<and> length (filter (\<lambda>p. strip p \<noteq> []) [[], '' Hi. '', []]) - 1 = 0"
  by (simp add: char_defs re_defs str_defs scan_defs pre_defs default_abbreviations_def Let_def
        cong: bind_arg_cong let_arg_cong option.case_cong_weak prod.case_cong_weak)

section \<open>Paragraph markers\<close>

text \<open>
  Claim C4, amended. A paragraph that is blank after trimming adds nothing to the
  output, not even a marker. Where no non-blank paragraph before the last one has the
  same text as the last one, the output is, paragraph by paragraph, the sentence
  tokens of the paragraph (none of them the marker, together the non-whitespace
  characters of the paragraph) followed by the marker exactly when the paragraph is
  non-blank and not the last one; so the number of markers in the output is the
  number of non-blank paragraphs before the last one.
\<close>

theorem marker_after_nonblank_paragraphs:
  assumes "\<forall>q\<in>set (butlast (py_split text marker)). strip q \<noteq> [] \<longrightarrow> q \<noteq> last (py_split text marker)"
  shows "\<exists>toks tokss. split_into_sentences text abbreviations = Some toks
      \<and> length tokss = length (py_split text marker)
      \<and> toks = concat (map (\<lambda>k. tokss ! k
                                  @ (if strip (py_split text marker ! k) \<noteq> []
                                        \<and> k + 1 < length (py_split text marker)
                                     then [marker] else []))
                              [0..<length (py_split text marker)])
      \<and> (\<forall>k<length (py_split text marker).
            marker \<notin> set (tokss ! k) \<and> (strip (py_split text marker ! k) = [] \<longrightarrow> tokss ! k = [])
            \<and> delete_whitespace (concat (tokss ! k)) = delete_whitespace (py_split text marker ! k))
      \<and> count_list toks marker
          = length (filter (\<lambda>q. strip q \<noteq> []) (butlast (py_split text marker)))"
proof -
  have ne: "py_split text marker \<noteq> []"
    by (simp add: py_split_def split_from_nonempty)
  from split_into_sentences_layout [OF assms, of abbreviations]
  obtain tokss where len: "length tokss = length (py_split text marker)"
    and run: "split_into_sentences text abbreviations
          = Some (concat (map (\<lambda>k. tokss ! k
                                  @ (if strip (py_split text marker ! k) \<noteq> []
                                        \<and> k + 1 < length (py_split text marker)
                                     then [marker] else []))
                              [0..<length (py_split text marker)]))"
    and each: "\<forall>k<length (py_split text marker).
            marker \<notin> set (tokss ! k) \<and> (strip (py_split text marker ! k) = [] \<longrightarrow> tokss ! k = [])
            \<and> delete_whitespace (concat (tokss ! k)) = delete_whitespace (py_split text marker ! k)"
    by blast
  from split_into_sentences_result [of "text" abbreviations] run
  have "count_list (concat (map (\<lambda>k. tokss ! k
                                  @ (if strip (py_split text marker ! k) \<noteq> []
                                        \<and> k + 1 < length (py_split text marker)
                                     then [marker] else []))
                              [0..<length (py_split text marker)])) marker
          = length (filter (\<lambda>q. strip q \<noteq> [] \<and> q \<noteq> last (py_split text marker))
                           (py_split text marker))"
    by auto
  also have "\<dots> = length (filter (\<lambda>q. strip q \<noteq> []) (butlast (py_split text marker)))"
    using ne assms by (rule count_nonblank_before_last)
  finally show ?thesis using len run each by blast
qed

theorem marker_after_nonblank_paragraphs_witness:
  "split_into_sentences ''Hi. [PARAGRAPH BREAK] Yo.'' {} = Some [''Hi.'', marker, ''Yo.'']
   \<and> py_split ''Hi. [PARAGRAPH BREAK] Yo.'' marker = [''Hi. '', '' Yo.'']
   \<and> count_list [''Hi.'', marker, ''Yo.''] marker
       = length (filter (\<lambda>q. strip q \<noteq> []) (butlast (py_split ''Hi. [PARAGRAPH BREAK] Yo.'' marker)))"
proof -
  have ps: "py_split ''Hi. [PARAGRAPH BREAK] Yo.'' marker = [''Hi. '', '' Yo.'']"
    by (simp add: str_defs)
  have hyp: "\<forall>q\<in>set (butlast (py_split ''Hi. [PARAGRAPH BREAK] Yo.'' marker)).
      strip q \<noteq> [] \<longrightarrow> q \<noteq> last (py_split ''Hi. [PARAGRAPH BREAK] Yo.'' marker)"
    by (simp add: ps)
  have run: "split_into_sentences ''Hi. [PARAGRAPH BREAK] Yo.'' {} = Some [''Hi.'', marker, ''Yo.'']"
    by (simp add: char_defs re_defs str_defs scan_defs pre_defs default_abbreviations_def Let_def
        cong: bind_arg_cong let_arg_cong option.case_cong_weak prod.case_cong_weak)
  from marker_after_nonblank_paragraphs [OF hyp, of "{}"]
  obtain toks where "split_into_sentences ''Hi. [PARAGRAPH BREAK] Yo.'' {} = Some toks"
    and "count_list toks marker
       = length (filter (\<lambda>q. strip q \<noteq> []) (butlast (py_split ''Hi. [PARAGRAPH BREAK] Yo.'' marker)))"
    by blast
  with run have "count_list [''Hi.'', marker, ''Yo.''] marker
       = length (filter (\<lambda>q. strip q \<noteq> []) (butlast (py_split ''Hi. [PARAGRAPH BREAK] Yo.'' marker)))"
    by simp
  with run ps show ?thesis by blast
qed

section \<open>Properties of every run\<close>

text \<open>
  Claim C5. For every text and every set of abbreviations the splitter returns a
  list, and every token of it is non-empty after trimming.
\<close>

theorem tokens_nonempty_after_trimming:
  "\<exists>toks. split_into_sentences text abbreviations = Some toks
     \<and> (\<forall>t\<in>set toks. strip t \<noteq> [])"
  using split_into_sentences_result [of "text" abbreviations] by blast

theorem tokens_nonempty_after_trimming_witness:
  "split_into_sentences ''Hi. Yo.'' {} = Some [''Hi.'', ''Yo.'']
   \<and> strip ''Hi.'' \<noteq> [] \<and> strip ''Yo.'' \<noteq> []"
proof -
  have run: "split_into_sentences ''Hi. Yo.'' {} = Some [''Hi.'', ''Yo.'']"
    by (simp add: char_defs re_defs str_defs scan_defs pre_defs default_abbreviations_def Let_def
        cong: bind_arg_cong let_arg_cong option.case_cong_weak prod.case_cong_weak)
  from tokens_nonempty_after_trimming [of "''Hi. Yo.''" "{}"] run
  show ?thesis by auto
qed

text \<open>
  Claim C6. Normalizing a text that is already normalized returns it unchanged.
\<close>

theorem preprocess_text_idempotent: "preprocess_text (preprocess_text t) = preprocess_text t"
proof -
  define y where "y = preprocess_text t"
  have c: "collapsed y"
    unfolding y_def preprocess_text_def by (intro collapsed_strip collapsed_sub_spaces)
  then have n: "newline \<notin> set y" by (rule collapsed_no_newline)
  have "strip y = y"
    unfolding y_def preprocess_text_def by (rule strip_idem)
  with c n have "preprocess_text y = y"
    by (simp add: preprocess_text_def [of y] sub_blank_lines_no_newline sub_newlines_no_newline
        sub_spaces_collapsed)
  then show ?thesis by (simp add: y_def)
qed

theorem preprocess_text_idempotent_witness:
  "preprocess_text (''a '' @ [newline, CHR 0x09, newline] @ '' b'') = ''a [PARAGRAPH BREAK] b''
   \<and> preprocess_text ''a [PARAGRAPH BREAK] b'' = ''a [PARAGRAPH BREAK] b''"
proof -
  have run: "preprocess_text (''a '' @ [newline, CHR 0x09, newline] @ '' b'') = ''a [PARAGRAPH BREAK] b''"
    by (simp add: char_defs str_defs pre_defs Let_def)
  from preprocess_text_idempotent [of "''a '' @ [newline, CHR 0x09, newline] @ '' b''"] run
  show ?thesis by simp
qed

text \<open>
  Claim C8. The splitter raises nothing: for every text (a normalized one in
  particular) and every set of abbreviations it returns a list of tokens. The empty
  text is normalized to the empty text, which is split into no token.
\<close>

theorem segmentation_total:
  "(\<exists>toks. split_into_sentences text abbreviations = Some toks)
   \<and> (\<exists>toks. split_into_sentences (preprocess_text raw) abbreviations = Some toks)
   \<and> preprocess_text [] = []
   \<and> split_into_sentences (preprocess_text []) abbreviations = Some []"
proof -
  have "\<exists>toks. split_into_sentences text abbreviations = Some toks"
    using split_into_sentences_result [of "text" abbreviations] by blast
  moreover have "\<exists>toks. split_into_sentences (preprocess_text raw) abbreviations = Some toks"
    using split_into_sentences_result [of "preprocess_text raw" abbreviations] by blast
  moreover have e: "preprocess_text [] = []"
    by (simp add: preprocess_text_def strip_def lstrip_def rstrip_def)
  moreover have "split_into_sentences [] abbreviations = Some []"
    by (simp add: split_into_sentences_def py_split_def process_paragraph_def strip_def
        lstrip_def rstrip_def)
  ultimately show ?thesis by simp
qed

theorem segmentation_total_witness:
  "\<exists>toks. split_into_sentences (preprocess_text ''Hi. Yo.'') {} = Some toks"
  using segmentation_total [of "''Hi. Yo.''" "{}" "''Hi. Yo.''"] by blast

text \<open>
  Claim C9. The paragraphs, joined with the marker, are the text, so their
  concatenation is the text with every marker cut out. The tokens of the output
  other than the marker, concatenated in order and with every whitespace character
  deleted, are that concatenation with every whitespace character deleted. This holds
  for every text given to the splitter, so for every normalized text.
\<close>

theorem segmentation_keeps_content:
  "py_join marker (py_split text marker) = text
   \<and> (\<exists>toks. split_into_sentences text abbreviations = Some toks
        \<and> delete_whitespace (concat (filter (\<lambda>t. t \<noteq> marker) toks))
            = delete_whitespace (concat (py_split text marker)))"
  using split_into_sentences_result [of "text" abbreviations] py_join_py_split [of marker "text"]
  by blast

theorem segmentation_keeps_content_witness:
  "split_into_sentences ''Hi. [PARAGRAPH BREAK] Yo.'' {} = Some [''Hi.'', marker, ''Yo.'']
   \<and> delete_whitespace (concat (filter (\<lambda>t. t \<noteq> marker) [''Hi.'', marker, ''Yo.'']))
       = delete_whitespace (concat (py_split ''Hi. [PARAGRAPH BREAK] Yo.'' marker))"
proof -
  have run: "split_into_sentences ''Hi. [PARAGRAPH BREAK] Yo.'' {} = Some [''Hi.'', marker, ''Yo.'']"
    by (simp add: char_defs re_defs str_defs scan_defs pre_defs default_abbreviations_def Let_def
        cong: bind_arg_cong let_arg_cong option.case_cong_weak prod.case_cong_weak)
  from segmentation_keeps_content [of "''Hi. [PARAGRAPH BREAK] Yo.''" "{}"] run
  show ?thesis by auto
qed

text \<open>
  Claim C10. Every token of the output is the marker itself or does not contain
  the marker as a substring.
\<close>

theorem sentence_tokens_marker_free:
  "\<exists>toks. split_into_sentences text abbreviations = Some toks
     \<and> (\<forall>t\<in>set toks. t = marker \<or> \<not> sublist marker t)"
  using split_into_sentences_result [of "text" abbreviations] by blast

theorem sentence_tokens_marker_free_witness:
  "split_into_sentences ''Hi. [PARAGRAPH BREAK] Yo.'' {} = Some [''Hi.'', marker, ''Yo.'']
   \<and> \<not> sublist marker ''Hi.'' \<and> \<not> sublist marker ''Yo.''"
proof -
  have run: "split_into_sentences ''Hi. [PARAGRAPH BREAK] Yo.'' {} = Some [''Hi.'', marker, ''Yo.'']"
    by (simp add: char_defs re_defs str_defs scan_defs pre_defs default_abbreviations_def Let_def
        cong: bind_arg_cong let_arg_cong option.case_cong_weak prod.case_cong_weak)
  have "''Hi.'' \<noteq> marker" and "''Yo.'' \<noteq> marker"
    by (simp_all add: marker_def)
  with sentence_tokens_marker_free [of "''Hi. [PARAGRAPH BREAK] Yo.''" "{}"] run
  show ?thesis by auto
qed

end
